theory Spec2Isabelle
  imports Main "HOL-Library.Multiset"
begin

section \<open>The HD keys generator: data\<close>

text \<open>
  The development follows \<^verbatim>\<open>hdKeysGenerator/main.go\<close>. That file is the only part of
  the key generator whose source is at hand; the types it mentions
  (\<^verbatim>\<open>common.GeneratedKey\<close>, \<^verbatim>\<open>parsedCliFlags\<close>, \<^verbatim>\<open>constraints\<close>, the task type) and the helpers
  it calls (\<^verbatim>\<open>newConstraints\<close>, \<^verbatim>\<open>createTasks\<close>, \<^verbatim>\<open>doGenerateKeys\<close>, the exporter) are declared
  elsewhere. Index and count fields are unsigned in the specification and are only compared,
  added and used as lengths here; they are natural numbers.
\<close>

text \<open>A generated key: the two derivation indexes the comparator reads, and the key material.\<close>

record GeneratedKey =
  AccountIndex :: nat
  AddressIndex :: nat
  Address :: string
  SecretKey :: string

text \<open>Go's \<^verbatim>\<open>error\<close> values, by the kinds the specification names.\<close>

datatype error = ConfigurationError | DerivationError | CancellationError | OtherError string

type_synonym mnemonic = string

text \<open>The fields of \<^verbatim>\<open>parsedCliFlags\<close> that \<^verbatim>\<open>main.go\<close> reads.\<close>

record parsedCliFlags =
  numShards :: nat
  actualShard :: "nat option"
  projectedShard :: "nat option"
  startIndex :: nat
  numKeys :: nat
  numTasks :: nat
  useAccountIndex :: bool
  exportFormat :: string

record constraints =
  constraintsNumShards :: nat
  constraintsActualShard :: "nat option"
  constraintsProjectedShard :: "nat option"

text \<open>One worker's slice of the index space, the half-open range from \<open>rangeStart\<close> to \<open>rangeEnd\<close>.\<close>

record generatorTask =
  rangeStart :: nat
  rangeEnd :: nat
  useAccountIndexOnly :: bool

record ArgsNewExporter =
  ActualShard :: "nat option"
  ProjectedShard :: "nat option"
  StartIndex :: nat
  NumKeys :: nat
  Format :: string

text \<open>
  A \<^verbatim>\<open>context.Context\<close>, as far as a loop can observe it: whether it is cancelled when
  the loop's \<open>n\<close>-th iteration starts. \<^verbatim>\<open>context.Background()\<close> is never cancelled.
\<close>

type_synonym Context = "nat \<Rightarrow> bool"

definition Background :: Context where
  "Background = (\<lambda>_. False)"

text \<open>
  Everything the search depends on that \<^verbatim>\<open>main.go\<close> does not define:
  \<^item> \<open>fixedTaskSize\<close>, the package constant giving the number of indexes one task checks;
  \<^item> \<open>doGenerateKeys\<close>, the task method that derives and filters the keys of a range;
  \<^item> \<open>scheduler\<close>, which of the goroutines still running finishes next: in iteration \<open>n\<close>,
    with \<open>m\<close> of them running, the one at position \<open>scheduler n m mod m\<close> of the running list;
  \<^item> \<open>NewExporter\<close>, \<open>askMnemonic\<close> and \<open>ExportKeys\<close>, the collaborators of \<^verbatim>\<open>generateKeys\<close>
    (for \<open>askMnemonic\<close>, the outcome of reading the line).
\<close>

record environment =
  fixedTaskSize :: nat
  doGenerateKeys :: "generatorTask \<Rightarrow> mnemonic \<Rightarrow> constraints \<Rightarrow> error + GeneratedKey list"
  scheduler :: "nat \<Rightarrow> nat \<Rightarrow> nat"
  NewExporter :: "ArgsNewExporter \<Rightarrow> error option"
  askMnemonic :: "error + mnemonic"
  ExportKeys :: "GeneratedKey list \<Rightarrow> error option"

section \<open>Helpers declared outside \<^verbatim>\<open>main.go\<close>\<close>

definition shardOutOfRange :: "nat \<Rightarrow> nat option \<Rightarrow> bool" where
  "shardOutOfRange n s = (case s of None \<Rightarrow> False | Some v \<Rightarrow> n \<le> v)"

text \<open>
  Modelled from the spec: \<^verbatim>\<open>newConstraints\<close> is missing from the sources. The specification's
  data model gives the invariant of a constraints value: the number of shards is at least one
  and a shard that is present is below the number of shards; a violation is a
  \<open>ConfigurationError\<close>.
\<close>

definition newConstraints :: "nat \<Rightarrow> nat option \<Rightarrow> nat option \<Rightarrow> error + constraints" where
  "newConstraints n a p =
     (if n < 1 then Inl ConfigurationError
      else if shardOutOfRange n a then Inl ConfigurationError
      else if shardOutOfRange n p then Inl ConfigurationError
      else Inr \<lparr>constraintsNumShards = n, constraintsActualShard = a,
                constraintsProjectedShard = p\<rparr>)"

definition makeTask :: "nat \<Rightarrow> nat \<Rightarrow> bool \<Rightarrow> nat \<Rightarrow> generatorTask" where
  "makeTask width slidingIdx useAccountIdx i =
     \<lparr>rangeStart = slidingIdx + i * width, rangeEnd = slidingIdx + (i + 1) * width,
      useAccountIndexOnly = useAccountIdx\<rparr>"

text \<open>
  Modelled from the spec: \<^verbatim>\<open>createTasks\<close> is missing from the sources. The specification's
  index allocator cuts the half-open interval of \<open>numTasks * taskWidth\<close> indexes that starts at
  the sliding index into \<open>numTasks\<close> equal contiguous ranges, one per task, in increasing
  order, and returns the end of the interval as the new sliding index. The width is the
  package constant, passed first.
\<close>

definition createTasks :: "nat \<Rightarrow> nat \<Rightarrow> nat \<Rightarrow> bool \<Rightarrow> generatorTask list \<times> nat" where
  "createTasks width nTasks slidingIdx useAccountIdx =
     (map (makeTask width slidingIdx useAccountIdx) [0..<nTasks],
      slidingIdx + nTasks * width)"

section \<open>Sorting\<close>

text \<open>
  The closure handed to \<^verbatim>\<open>sort.Slice\<close> in \<^verbatim>\<open>inlineSortKeysByIndexes\<close>, on the two elements
  it reads.
\<close>

definition keyLess :: "GeneratedKey \<Rightarrow> GeneratedKey \<Rightarrow> bool" where
  "keyLess a b =
     (if AccountIndex a < AccountIndex b then True
      else if AddressIndex a < AddressIndex b then True
      else False)"

text \<open>
  \<^verbatim>\<open>sort.Slice\<close> belongs to Go's standard library. On a slice of at most twelve elements it
  runs the library's insertion sort (between seven and twelve elements, older releases make
  one pass with gap six first):
  \<^verbatim>\<open>for i := a + 1; i < b; i++ { for j := i; j > a && less(j, j-1); j-- { swap(j, j-1) } }\<close>
  \<open>sinkLeft\<close> is the inner loop and \<open>sort_Slice\<close> the outer one. Longer slices are partitioned
  first; what is proved below about slices of arbitrary length uses only that sorting
  permutes the slice.
\<close>

fun sinkLeft :: "('a \<Rightarrow> 'a \<Rightarrow> bool) \<Rightarrow> 'a list \<Rightarrow> nat \<Rightarrow> 'a list" where
  "sinkLeft lessFn xs 0 = xs"
| "sinkLeft lessFn xs (Suc j) =
     (if lessFn (xs ! Suc j) (xs ! j)
      then sinkLeft lessFn (xs[Suc j := xs ! j, j := xs ! Suc j]) j
      else xs)"

definition sort_Slice :: "'a list \<Rightarrow> ('a \<Rightarrow> 'a \<Rightarrow> bool) \<Rightarrow> 'a list" where
  "sort_Slice xs lessFn = fold (\<lambda>i ys. sinkLeft lessFn ys i) [1..<length xs] xs"

definition inlineSortKeysByIndexes :: "GeneratedKey list \<Rightarrow> GeneratedKey list" where
  "inlineSortKeysByIndexes ks = sort_Slice ks keyLess"

text \<open>
  The order the specification asks for: the account index decides, the address index only
  between equal account indexes. A sequence is sorted when no later element is below an
  earlier one.
\<close>

definition lexLess :: "GeneratedKey \<Rightarrow> GeneratedKey \<Rightarrow> bool" where
  "lexLess a b =
     (AccountIndex a < AccountIndex b
      \<or> (AccountIndex a = AccountIndex b \<and> AddressIndex a < AddressIndex b))"

definition sortedByIndexes :: "GeneratedKey list \<Rightarrow> bool" where
  "sortedByIndexes ks = sorted_wrt (\<lambda>a b. \<not> lexLess b a) ks"

section \<open>The task group\<close>

text \<open>
  An \<^verbatim>\<open>errgroup.Group\<close> keeps the first error a goroutine returned. \<^verbatim>\<open>WithContext\<close> gives a
  fresh group and a context derived from its argument; the group itself never reads the
  argument.
\<close>

type_synonym group = "error option"

definition errgroup_WithContext :: "Context \<Rightarrow> group \<times> Context" where
  "errgroup_WithContext ctx = (None, ctx)"

text \<open>
  The order in which \<open>m\<close> running goroutines finish: the scheduler picks one of those still
  running, which leaves the list.
\<close>

fun finishOrder :: "(nat \<Rightarrow> nat) \<Rightarrow> nat \<Rightarrow> nat list \<Rightarrow> nat list" where
  "finishOrder pick 0 running = []"
| "finishOrder pick (Suc m) running =
     (let i = running ! (pick (Suc m) mod Suc m)
      in i # finishOrder pick m (remove1 i running))"

definition completionOrder :: "(nat \<Rightarrow> nat) \<Rightarrow> nat \<Rightarrow> nat list" where
  "completionOrder pick n = finishOrder pick n [0..<n]"

text \<open>
  The goroutine of task \<open>i\<close> finishing: on an error the group records it unless it holds one
  already; otherwise the keys go to slot \<open>i\<close> of \<^verbatim>\<open>generatedKeysByTask\<close>. The slice has
  \<open>numTasks\<close> slots and the allocator returns \<open>numTasks\<close> tasks, so the slot exists.
\<close>

definition workerDone ::
  "(generatorTask \<Rightarrow> error + GeneratedKey list) \<Rightarrow> generatorTask list \<Rightarrow> nat
   \<Rightarrow> GeneratedKey list list \<times> group \<Rightarrow> GeneratedKey list list \<times> group" where
  "workerDone gen tasks i st =
     (case gen (tasks ! i) of
        Inl e \<Rightarrow> (fst st, (case snd st of None \<Rightarrow> Some e | Some first \<Rightarrow> Some first))
      | Inr ks \<Rightarrow> ((fst st)[i := ks], snd st))"

text \<open>All goroutines of one iteration, up to the return of \<^verbatim>\<open>errs.Wait()\<close>.\<close>

definition runTasks ::
  "(generatorTask \<Rightarrow> error + GeneratedKey list) \<Rightarrow> generatorTask list \<Rightarrow> nat list
   \<Rightarrow> GeneratedKey list list \<times> group \<Rightarrow> GeneratedKey list list \<times> group" where
  "runTasks gen tasks order st = fold (workerDone gen tasks) order st"

section \<open>The search\<close>

text \<open>
  The loop's variables, with two observers added: the number of the iteration and the tasks
  handed to \<^verbatim>\<open>doGenerateKeys\<close> so far, in launch order.
\<close>

record searchState =
  allGeneratedKeys :: "GeneratedKey list"
  slidingIndex :: nat
  iteration :: nat
  dispatched :: "generatorTask list"

text \<open>What \<^verbatim>\<open>generateKeysInParallel\<close> returns, and the tasks it has run.\<close>

record searchResult =
  keys :: "GeneratedKey list"
  err :: "error option"
  derivations :: "generatorTask list"

text \<open>One pass through the loop body: the error that ends the search, or the next state.\<close>

definition searchIteration ::
  "environment \<Rightarrow> Context \<Rightarrow> parsedCliFlags \<Rightarrow> mnemonic \<Rightarrow> constraints \<Rightarrow> searchState
   \<Rightarrow> searchResult + searchState" where
  "searchIteration env ctx params mn cs st =
     (let generatedKeysByTask = replicate (numTasks params) [];
          created = createTasks (fixedTaskSize env) (numTasks params) (slidingIndex st)
                      (useAccountIndex params);
          tasks = fst created;
          newSlidingIndex = snd created;
          errs = fst (errgroup_WithContext ctx);
          finished = runTasks (\<lambda>t. doGenerateKeys env t mn cs) tasks
                       (completionOrder (scheduler env (iteration st)) (length tasks))
                       (generatedKeysByTask, errs)
      in case snd finished of
           Some e \<Rightarrow> Inl \<lparr>keys = [], err = Some e, derivations = dispatched st @ tasks\<rparr>
         | None \<Rightarrow>
             Inr \<lparr>allGeneratedKeys = allGeneratedKeys st @ concat (fst finished),
                  slidingIndex = newSlidingIndex,
                  iteration = Suc (iteration st),
                  dispatched = dispatched st @ tasks\<rparr>)"

partial_function (option) searchLoop ::
  "environment \<Rightarrow> Context \<Rightarrow> parsedCliFlags \<Rightarrow> mnemonic \<Rightarrow> constraints \<Rightarrow> searchState
   \<Rightarrow> searchResult option" where
  "searchLoop env ctx params mn cs st =
     (if length (allGeneratedKeys st) < numKeys params
      then (case searchIteration env ctx params mn cs st of
              Inl failed \<Rightarrow> Some failed
            | Inr st' \<Rightarrow> searchLoop env ctx params mn cs st')
      else Some \<lparr>keys = inlineSortKeysByIndexes (allGeneratedKeys st), err = None,
                 derivations = dispatched st\<rparr>)"

definition generateKeysInParallel ::
  "environment \<Rightarrow> Context \<Rightarrow> parsedCliFlags \<Rightarrow> mnemonic \<Rightarrow> constraints
   \<Rightarrow> searchResult option" where
  "generateKeysInParallel env ctx params mn cs =
     searchLoop env ctx params mn cs
       \<lparr>allGeneratedKeys = [], slidingIndex = startIndex params, iteration = 0,
        dispatched = []\<rparr>"

text \<open>
  The slice expression \<^verbatim>\<open>s[:n]\<close>. Go panics when \<open>n\<close> exceeds the capacity; the capacity is
  not part of the model, so every \<open>n\<close> beyond the length counts as the panic.
\<close>

definition sliceTo :: "'a list \<Rightarrow> nat \<Rightarrow> 'a list option" where
  "sliceTo s n = (if n \<le> length s then Some (take n s) else None)"

text \<open>
  How a run of \<^verbatim>\<open>generateKeys\<close> ends: with the \<^verbatim>\<open>error\<close> it returns (\<open>None\<close> for nil) or
  with a panic; the keys handed to the exporter, if it got that far; and the tasks run.
\<close>

datatype completion = Returned "error option" | Panicked

record runReport =
  completion :: completion
  exported :: "GeneratedKey list option"
  derivationLog :: "generatorTask list"

definition generateKeys :: "environment \<Rightarrow> parsedCliFlags \<Rightarrow> runReport option" where
  "generateKeys env cliFlags =
     (case newConstraints (numShards cliFlags) (actualShard cliFlags) (projectedShard cliFlags) of
        Inl e \<Rightarrow> Some \<lparr>completion = Returned (Some e), exported = None, derivationLog = []\<rparr>
      | Inr cs \<Rightarrow>
     (case NewExporter env
             \<lparr>ActualShard = actualShard cliFlags, ProjectedShard = projectedShard cliFlags,
              StartIndex = startIndex cliFlags, NumKeys = numKeys cliFlags,
              Format = exportFormat cliFlags\<rparr> of
        Some e \<Rightarrow> Some \<lparr>completion = Returned (Some e), exported = None, derivationLog = []\<rparr>
      | None \<Rightarrow>
     (case askMnemonic env of
        Inl e \<Rightarrow> Some \<lparr>completion = Returned (Some e), exported = None, derivationLog = []\<rparr>
      | Inr mn \<Rightarrow>
     (case generateKeysInParallel env Background cliFlags mn cs of
        None \<Rightarrow> None
      | Some r \<Rightarrow>
     (case err r of
        Some e \<Rightarrow> Some \<lparr>completion = Returned (Some e), exported = None,
                        derivationLog = derivations r\<rparr>
      | None \<Rightarrow>
     (case sliceTo (keys r) (numKeys cliFlags) of
        None \<Rightarrow> Some \<lparr>completion = Panicked, exported = None, derivationLog = derivations r\<rparr>
      | Some generatedKeys \<Rightarrow>
          Some \<lparr>completion = Returned (ExportKeys env generatedKeys),
                exported = Some generatedKeys, derivationLog = derivations r\<rparr>))))))"

section \<open>Notions used to state the properties\<close>

text \<open>The error of the first goroutine to fail, in the order in which they finish.\<close>

fun firstFailure ::
  "(generatorTask \<Rightarrow> error + GeneratedKey list) \<Rightarrow> generatorTask list \<Rightarrow> nat list
   \<Rightarrow> error option" where
  "firstFailure gen tasks [] = None"
| "firstFailure gen tasks (i # order) =
     (case gen (tasks ! i) of Inl e \<Rightarrow> Some e | Inr ks \<Rightarrow> firstFailure gen tasks order)"

text \<open>The keys a task contributes: what its worker returns, nothing if the worker fails.\<close>

definition taskKeys ::
  "(generatorTask \<Rightarrow> error + GeneratedKey list) \<Rightarrow> generatorTask \<Rightarrow> GeneratedKey list" where
  "taskKeys gen t = (case gen t of Inl e \<Rightarrow> [] | Inr ks \<Rightarrow> ks)"

text \<open>The tasks of the iteration that starts in a given state.\<close>

definition iterationTasks :: "environment \<Rightarrow> parsedCliFlags \<Rightarrow> searchState \<Rightarrow> generatorTask list" where
  "iterationTasks env params st =
     fst (createTasks (fixedTaskSize env) (numTasks params) (slidingIndex st)
            (useAccountIndex params))"

text \<open>
  The search seen from outside the loop: the tasks of the \<open>k\<close>-th batch (counting from 0),
  the matches accumulated and the tasks allocated by the first \<open>n\<close> batches, and the loop
  state they add up to.
\<close>

definition batchTasks :: "environment \<Rightarrow> parsedCliFlags \<Rightarrow> nat \<Rightarrow> generatorTask list" where
  "batchTasks env params k =
     fst (createTasks (fixedTaskSize env) (numTasks params)
            (startIndex params + k * (numTasks params * fixedTaskSize env))
            (useAccountIndex params))"

fun accumulatedMatches ::
  "environment \<Rightarrow> parsedCliFlags \<Rightarrow> mnemonic \<Rightarrow> constraints \<Rightarrow> nat \<Rightarrow> GeneratedKey list" where
  "accumulatedMatches env params mn cs 0 = []"
| "accumulatedMatches env params mn cs (Suc n) =
     accumulatedMatches env params mn cs n
       @ concat (map (taskKeys (\<lambda>t. doGenerateKeys env t mn cs)) (batchTasks env params n))"

fun allocated :: "environment \<Rightarrow> parsedCliFlags \<Rightarrow> nat \<Rightarrow> generatorTask list" where
  "allocated env params 0 = []"
| "allocated env params (Suc n) = allocated env params n @ batchTasks env params n"

definition stateAfter ::
  "environment \<Rightarrow> parsedCliFlags \<Rightarrow> mnemonic \<Rightarrow> constraints \<Rightarrow> nat \<Rightarrow> searchState" where
  "stateAfter env params mn cs n =
     \<lparr>allGeneratedKeys = accumulatedMatches env params mn cs n,
      slidingIndex = startIndex params + n * (numTasks params * fixedTaskSize env),
      iteration = n,
      dispatched = allocated env params n\<rparr>"

text \<open>The indexes a task scans.\<close>

definition taskIndexes :: "generatorTask \<Rightarrow> nat list" where
  "taskIndexes t = [rangeStart t..<rangeEnd t]"

text \<open>
  The allocator called \<open>k\<close> times in a row, each call starting at the sliding index the
  previous one returned: all the tasks handed out, and the last sliding index.
\<close>

fun successiveBatches ::
  "nat \<Rightarrow> nat \<Rightarrow> bool \<Rightarrow> nat \<Rightarrow> nat \<Rightarrow> generatorTask list \<times> nat" where
  "successiveBatches width nTasks useAccountIdx slidingIdx 0 = ([], slidingIdx)"
| "successiveBatches width nTasks useAccountIdx slidingIdx (Suc k) =
     (let batch = createTasks width nTasks slidingIdx useAccountIdx;
          later = successiveBatches width nTasks useAccountIdx (snd batch) k
      in (fst batch @ fst later, snd later))"

text \<open>
  What two runs under different schedules have in common when they agree: the keys, the
  tasks run, and whether there was an error.
\<close>

definition sameOutcome :: "searchResult \<Rightarrow> searchResult \<Rightarrow> bool" where
  "sameOutcome r r' =
     (keys r = keys r' \<and> derivations r = derivations r' \<and> (err r = None) = (err r' = None))"

subsection \<open>A concrete run\<close>

text \<open>
  The specification's first scenario: two shards, keys wanted in shard 0, three keys, start
  index 0, with the shard of index \<open>i\<close> being \<open>i mod 2\<close>. Two tasks of width two run per
  iteration.
\<close>

definition exampleKey :: "nat \<Rightarrow> nat \<Rightarrow> GeneratedKey" where
  "exampleKey a b = \<lparr>AccountIndex = a, AddressIndex = b, Address = [], SecretKey = []\<rparr>"

definition exampleWorker ::
  "generatorTask \<Rightarrow> mnemonic \<Rightarrow> constraints \<Rightarrow> error + GeneratedKey list" where
  "exampleWorker t mn cs =
     Inr (map (\<lambda>i. if useAccountIndexOnly t then exampleKey i 0 else exampleKey 0 i)
            (filter (\<lambda>i. case constraintsActualShard cs of
                            None \<Rightarrow> True
                          | Some sh \<Rightarrow> i mod constraintsNumShards cs = sh)
               [rangeStart t..<rangeEnd t]))"

definition exampleEnv :: environment where
  "exampleEnv =
     \<lparr>fixedTaskSize = 2, doGenerateKeys = exampleWorker, scheduler = (\<lambda>n m. n + m),
      NewExporter = (\<lambda>args. None), askMnemonic = Inr ''seed'', ExportKeys = (\<lambda>ks. None)\<rparr>"

definition exampleFlags :: parsedCliFlags where
  "exampleFlags =
     \<lparr>numShards = 2, actualShard = Some 0, projectedShard = None, startIndex = 0,
      numKeys = 3, numTasks = 2, useAccountIndex = False, exportFormat = []\<rparr>"

definition exampleConstraints :: constraints where
  "exampleConstraints =
     \<lparr>constraintsNumShards = 2, constraintsActualShard = Some 0,
      constraintsProjectedShard = None\<rparr>"

text \<open>A worker that cannot derive index 5, and a context cancelled after the first iteration.\<close>

definition failingWorker ::
  "generatorTask \<Rightarrow> mnemonic \<Rightarrow> constraints \<Rightarrow> error + GeneratedKey list" where
  "failingWorker t mn cs =
     (if rangeStart t \<le> 5 \<and> 5 < rangeEnd t then Inl DerivationError
      else exampleWorker t mn cs)"

definition failingEnv :: environment where
  "failingEnv = exampleEnv\<lparr>doGenerateKeys := failingWorker\<rparr>"

text \<open>
  A worker whose first range holds two matches, the keys \<open>(0, 1)\<close> and \<open>(1, 0)\<close>, found in
  this order; one task per iteration and one key requested.
\<close>

definition pairWorker ::
  "generatorTask \<Rightarrow> mnemonic \<Rightarrow> constraints \<Rightarrow> error + GeneratedKey list" where
  "pairWorker t mn cs =
     (if rangeStart t = 0 then Inr [exampleKey 0 1, exampleKey 1 0] else Inr [])"

definition pairEnv :: environment where
  "pairEnv = exampleEnv\<lparr>doGenerateKeys := pairWorker\<rparr>"

definition pairFlags :: parsedCliFlags where
  "pairFlags = exampleFlags\<lparr>numKeys := 1, numTasks := 1\<rparr>"

definition cancelledAfterFirst :: Context where
  "cancelledAfterFirst = (\<lambda>n. 1 \<le> n)"

section \<open>Sorting permutes, and the comparator\<close>

lemma length_sinkLeft: "length (sinkLeft f xs j) = length xs"
  by (induction f xs j rule: sinkLeft.induct) auto

lemma mset_sinkLeft: "j < length xs \<Longrightarrow> mset (sinkLeft f xs j) = mset xs"
  by (induction f xs j rule: sinkLeft.induct) (auto simp: mset_swap)

lemma length_fold_sinkLeft: "length (fold (\<lambda>i ys. sinkLeft f ys i) js xs) = length xs"
  by (induction js arbitrary: xs) (auto simp: length_sinkLeft)

lemma mset_fold_sinkLeft:
  "list_all (\<lambda>j. j < length xs) js \<Longrightarrow> mset (fold (\<lambda>i ys. sinkLeft f ys i) js xs) = mset xs"
  by (induction js arbitrary: xs) (auto simp: length_sinkLeft mset_sinkLeft)

lemma length_inlineSortKeysByIndexes: "length (inlineSortKeysByIndexes ks) = length ks"
  by (simp add: inlineSortKeysByIndexes_def sort_Slice_def length_fold_sinkLeft)

lemma mset_inlineSortKeysByIndexes: "mset (inlineSortKeysByIndexes ks) = mset ks"
  by (simp add: inlineSortKeysByIndexes_def sort_Slice_def mset_fold_sinkLeft list_all_iff)

lemma inlineSortKeysByIndexes_Nil: "inlineSortKeysByIndexes [] = []"
  by (simp add: inlineSortKeysByIndexes_def sort_Slice_def)

text \<open>
  The comparator against the lexicographic order: it agrees where that order says "less",
  and says "less" once more, for a greater account index with a smaller address index.
\<close>

lemma keyLess_lexLess:
  "keyLess a b \<longleftrightarrow>
     lexLess a b \<or> (AccountIndex b < AccountIndex a \<and> AddressIndex a < AddressIndex b)"
  by (auto simp: keyLess_def lexLess_def)

section \<open>One iteration\<close>

subsection \<open>Every goroutine finishes exactly once\<close>

lemma mset_finishOrder:
  "length running = m \<Longrightarrow> mset (finishOrder pick m running) = mset running"
proof (induction m arbitrary: running)
  case 0
  then show ?case by simp
next
  case (Suc m)
  let ?i = "running ! (pick (Suc m) mod Suc m)"
  have mem: "?i \<in> set running"
    using Suc.prems by (metis mod_less_divisor nth_mem zero_less_Suc)
  then have "length (remove1 ?i running) = m"
    using Suc.prems by (simp add: length_remove1)
  then have "mset (finishOrder pick m (remove1 ?i running)) = mset (remove1 ?i running)"
    by (rule Suc.IH)
  then show ?case using mem by (simp add: Let_def)
qed

lemma mset_completionOrder: "mset (completionOrder pick n) = mset [0..<n]"
  by (simp add: completionOrder_def mset_finishOrder)

lemma set_completionOrder: "set (completionOrder pick n) = {0..<n}"
  using mset_completionOrder [of pick n] by (metis mset_eq_setD set_upt)

text \<open>Every order in which the goroutines can finish is the order of some scheduler.\<close>

lemma finishOrder_cong:
  "(\<And>k. 0 < k \<Longrightarrow> k \<le> m \<Longrightarrow> pick k = pick' k) \<Longrightarrow>
   finishOrder pick m running = finishOrder pick' m running"
proof (induction m arbitrary: running)
  case 0
  then show ?case by simp
next
  case (Suc m)
  have "pick (Suc m) = pick' (Suc m)" by (rule Suc.prems) simp_all
  moreover have "finishOrder pick m xs = finishOrder pick' m xs" for xs
    by (rule Suc.IH) (simp add: Suc.prems)
  ultimately show ?case by (simp add: Let_def)
qed

lemma every_order_finishOrder:
  "distinct order \<Longrightarrow> distinct running \<Longrightarrow> set order = set running \<Longrightarrow>
   \<exists>pick. finishOrder pick (length running) running = order"
proof (induction order arbitrary: running)
  case Nil
  then show ?case by simp
next
  case (Cons x xs)
  let ?rest = "remove1 x running"
  from Cons.prems have mem: "x \<in> set running" by auto
  then obtain idx where idx: "idx < length running" "running ! idx = x"
    by (auto simp: in_set_conv_nth)
  from mem have len: "length running = Suc (length ?rest)"
    by (simp add: length_remove1) (metis Suc_pred length_pos_if_in_set)
  have "distinct xs" "distinct ?rest" "set xs = set ?rest"
    using Cons.prems by auto
  from Cons.IH [OF this] obtain pick' where pick': "finishOrder pick' (length ?rest) ?rest = xs"
    by blast
  define pick where "pick = pick'(Suc (length ?rest) := idx)"
  have "finishOrder pick (length ?rest) ?rest = finishOrder pick' (length ?rest) ?rest"
    by (rule finishOrder_cong) (simp add: pick_def)
  moreover have "running ! (pick (Suc (length ?rest)) mod Suc (length ?rest)) = x"
    using idx len by (simp add: pick_def)
  ultimately have "finishOrder pick (length running) running = x # xs"
    using pick' len by (simp add: Let_def)
  then show ?case by blast
qed

lemma every_order_scheduled:
  assumes "distinct order" and "set order = {0..<n}"
  shows "\<exists>pick. completionOrder pick n = order"
  using every_order_finishOrder [of order "[0..<n]"] assms
  by (simp add: completionOrder_def)

subsection \<open>The allocator\<close>

lemma length_createTasks: "length (fst (createTasks w n s u)) = n"
  by (simp add: createTasks_def)

lemma snd_createTasks: "snd (createTasks w n s u) = s + n * w"
  by (simp add: createTasks_def)

subsection \<open>The group's error and the slots\<close>

lemma snd_runTasks:
  "snd (runTasks gen tasks order (slots, g)) =
     (case g of Some e \<Rightarrow> Some e | None \<Rightarrow> firstFailure gen tasks order)"
proof (induction order arbitrary: slots g)
  case Nil
  then show ?case by (simp add: runTasks_def split: option.splits)
next
  case (Cons i order)
  show ?case
  proof (cases "gen (tasks ! i)")
    case (Inl e)
    then have "runTasks gen tasks (i # order) (slots, g) =
        runTasks gen tasks order (slots, (case g of None \<Rightarrow> Some e | Some first \<Rightarrow> Some first))"
      by (simp add: runTasks_def workerDone_def)
    then show ?thesis using Inl by (simp add: Cons.IH split: option.splits)
  next
    case (Inr ks)
    then have "runTasks gen tasks (i # order) (slots, g) =
        runTasks gen tasks order (slots[i := ks], g)"
      by (simp add: runTasks_def workerDone_def)
    then show ?thesis using Inr by (simp add: Cons.IH split: option.splits)
  qed
qed

lemma length_fst_runTasks: "length (fst (runTasks gen tasks order (slots, g))) = length slots"
proof (induction order arbitrary: slots g)
  case Nil
  then show ?case by (simp add: runTasks_def)
next
  case (Cons i order)
  have "runTasks gen tasks (i # order) (slots, g) =
      runTasks gen tasks order (workerDone gen tasks i (slots, g))"
    by (simp add: runTasks_def)
  moreover have "length (fst (workerDone gen tasks i (slots, g))) = length slots"
    by (simp add: workerDone_def split: sum.splits)
  ultimately show ?case
    using Cons.IH [of "fst (workerDone gen tasks i (slots, g))"
        "snd (workerDone gen tasks i (slots, g))"]
    by simp
qed

lemma nth_fst_runTasks:
  "firstFailure gen tasks order = None \<Longrightarrow> k < length slots \<Longrightarrow>
   fst (runTasks gen tasks order (slots, g)) ! k =
     (if k \<in> set order then taskKeys gen (tasks ! k) else slots ! k)"
proof (induction order arbitrary: slots)
  case Nil
  then show ?case by (simp add: runTasks_def)
next
  case (Cons i order)
  from Cons.prems(1) obtain ks where ks: "gen (tasks ! i) = Inr ks"
    and rest: "firstFailure gen tasks order = None"
    by (auto split: sum.splits)
  have step: "runTasks gen tasks (i # order) (slots, g) =
      runTasks gen tasks order (slots[i := ks], g)"
    using ks by (simp add: runTasks_def workerDone_def)
  have "fst (runTasks gen tasks order (slots[i := ks], g)) ! k =
      (if k \<in> set order then taskKeys gen (tasks ! k) else slots[i := ks] ! k)"
    using Cons.IH [OF rest, of "slots[i := ks]"] Cons.prems(2) by simp
  then show ?case
    using step ks Cons.prems(2) by (auto simp: taskKeys_def nth_list_update)
qed

lemma fst_runTasks_all:
  assumes "firstFailure gen tasks order = None"
    and "set order = {0..<length tasks}"
    and "length slots = length tasks"
  shows "fst (runTasks gen tasks order (slots, g)) = map (taskKeys gen) tasks"
proof (rule nth_equalityI)
  show "length (fst (runTasks gen tasks order (slots, g))) = length (map (taskKeys gen) tasks)"
    using assms(3) by (simp add: length_fst_runTasks)
next
  fix k
  assume "k < length (fst (runTasks gen tasks order (slots, g)))"
  then have k: "k < length slots" by (simp add: length_fst_runTasks)
  then show "fst (runTasks gen tasks order (slots, g)) ! k = map (taskKeys gen) tasks ! k"
    using assms by (simp add: nth_fst_runTasks)
qed

lemma firstFailure_None:
  "firstFailure gen tasks order = None \<longleftrightarrow> (\<forall>i\<in>set order. \<exists>ks. gen (tasks ! i) = Inr ks)"
  by (induction order) (auto split: sum.splits)

lemma firstFailure_Some:
  "firstFailure gen tasks order = Some e \<Longrightarrow>
   \<exists>before j after. order = before @ j # after \<and> gen (tasks ! j) = Inl e
      \<and> (\<forall>k\<in>set before. \<exists>ks. gen (tasks ! k) = Inr ks)"
proof (induction order)
  case Nil
  then show ?case by simp
next
  case (Cons i order)
  show ?case
  proof (cases "gen (tasks ! i)")
    case (Inl e')
    with Cons.prems have "e' = e" by simp
    with Inl have "i # order = [] @ i # order \<and> gen (tasks ! i) = Inl e
        \<and> (\<forall>k\<in>set []. \<exists>ks. gen (tasks ! k) = Inr ks)" by simp
    then show ?thesis by blast
  next
    case (Inr ks)
    with Cons.prems have "firstFailure gen tasks order = Some e" by simp
    from Cons.IH [OF this] obtain before j after where
      "order = before @ j # after" "gen (tasks ! j) = Inl e"
      "\<forall>k\<in>set before. \<exists>ks. gen (tasks ! k) = Inr ks" by blast
    with Inr have "i # order = (i # before) @ j # after \<and> gen (tasks ! j) = Inl e
        \<and> (\<forall>k\<in>set (i # before). \<exists>ks. gen (tasks ! k) = Inr ks)" by simp
    then show ?thesis by blast
  qed
qed

subsection \<open>The loop body without the goroutines\<close>

text \<open>
  An iteration fails with the first error in finishing order; if no worker fails, every
  slot holds its task's keys whatever the finishing order was.
\<close>

lemma searchIteration_eq:
  "searchIteration env ctx params mn cs st =
     (case firstFailure (\<lambda>t. doGenerateKeys env t mn cs) (iterationTasks env params st)
             (completionOrder (scheduler env (iteration st)) (numTasks params)) of
        Some e \<Rightarrow> Inl \<lparr>keys = [], err = Some e,
                       derivations = dispatched st @ iterationTasks env params st\<rparr>
      | None \<Rightarrow>
          Inr \<lparr>allGeneratedKeys = allGeneratedKeys st
                  @ concat (map (taskKeys (\<lambda>t. doGenerateKeys env t mn cs))
                              (iterationTasks env params st)),
               slidingIndex = slidingIndex st + numTasks params * fixedTaskSize env,
               iteration = Suc (iteration st),
               dispatched = dispatched st @ iterationTasks env params st\<rparr>)"
proof -
  let ?gen = "\<lambda>t. doGenerateKeys env t mn cs"
  let ?tasks = "iterationTasks env params st"
  let ?order = "completionOrder (scheduler env (iteration st)) (numTasks params)"
  let ?fin = "runTasks ?gen ?tasks ?order (replicate (numTasks params) [], None)"
  have len: "length ?tasks = numTasks params"
    by (simp add: iterationTasks_def length_createTasks)
  have unfold: "searchIteration env ctx params mn cs st =
      (case snd ?fin of
         Some e \<Rightarrow> Inl \<lparr>keys = [], err = Some e, derivations = dispatched st @ ?tasks\<rparr>
       | None \<Rightarrow> Inr \<lparr>allGeneratedKeys = allGeneratedKeys st @ concat (fst ?fin),
               slidingIndex = slidingIndex st + numTasks params * fixedTaskSize env,
               iteration = Suc (iteration st),
               dispatched = dispatched st @ ?tasks\<rparr>)"
    by (simp add: searchIteration_def Let_def iterationTasks_def errgroup_WithContext_def
        snd_createTasks length_createTasks cong: option.case_cong)
  have sndfin: "snd ?fin = firstFailure ?gen ?tasks ?order"
    by (simp add: snd_runTasks)
  show ?thesis
  proof (cases "firstFailure ?gen ?tasks ?order")
    case None
    then have "fst ?fin = map (taskKeys ?gen) ?tasks"
      using len by (intro fst_runTasks_all) (simp_all add: set_completionOrder)
    then show ?thesis using None unfold sndfin by simp
  next
    case (Some e)
    then show ?thesis using unfold sndfin by simp
  qed
qed

section \<open>Reasoning about the loop\<close>

text \<open>
  An invariant rule for runs that return: what holds of every failed iteration's result and
  of the result built at every exit holds of the result returned.
\<close>

lemma searchLoop_rule:
  assumes ret: "searchLoop env ctx params mn cs st = Some r"
    and init: "I st"
    and step: "\<And>s s'. I s \<Longrightarrow> length (allGeneratedKeys s) < numKeys params \<Longrightarrow>
                 searchIteration env ctx params mn cs s = Inr s' \<Longrightarrow> I s'"
    and fail: "\<And>s f. I s \<Longrightarrow> length (allGeneratedKeys s) < numKeys params \<Longrightarrow>
                 searchIteration env ctx params mn cs s = Inl f \<Longrightarrow> Q f"
    and exit: "\<And>s. I s \<Longrightarrow> numKeys params \<le> length (allGeneratedKeys s) \<Longrightarrow>
                 Q \<lparr>keys = inlineSortKeysByIndexes (allGeneratedKeys s), err = None,
                    derivations = dispatched s\<rparr>"
  shows "Q r"
proof -
  define P where "P = (\<lambda>env' ctx' params' mn' cs' st' r'.
    env' = env \<longrightarrow> ctx' = ctx \<longrightarrow> params' = params \<longrightarrow> mn' = mn \<longrightarrow> cs' = cs \<longrightarrow> I st' \<longrightarrow> Q r')"
  have "P env ctx params mn cs st r"
  proof (rule searchLoop.raw_induct [where P = P, OF _ ret])
    fix loop env' ctx' params' mn' cs' st' r'
    assume IH: "\<And>e c p m k s y. loop e c p m k s = Some y \<Longrightarrow> P e c p m k s y"
      and hyp: "(if length (allGeneratedKeys st') < numKeys params'
                 then case searchIteration env' ctx' params' mn' cs' st' of
                        Inl failed \<Rightarrow> Some failed
                      | Inr s' \<Rightarrow> loop env' ctx' params' mn' cs' s'
                 else Some \<lparr>keys = inlineSortKeysByIndexes (allGeneratedKeys st'), err = None,
                            derivations = dispatched st'\<rparr>) = Some r'"
    show "P env' ctx' params' mn' cs' st' r'"
      unfolding P_def
    proof (intro impI)
      assume eqs: "env' = env" "ctx' = ctx" "params' = params" "mn' = mn" "cs' = cs"
        and inv: "I st'"
      show "Q r'"
      proof (cases "length (allGeneratedKeys st') < numKeys params")
        case True
        show ?thesis
        proof (cases "searchIteration env ctx params mn cs st'")
          case (Inl f)
          with True hyp eqs have "f = r'" by simp
          with fail [OF inv True Inl] show ?thesis by simp
        next
          case (Inr s')
          with True hyp eqs have "loop env ctx params mn cs s' = Some r'" by simp
          from IH [OF this] step [OF inv True Inr] show ?thesis by (simp add: P_def)
        qed
      next
        case False
        with hyp eqs have "r' = \<lparr>keys = inlineSortKeysByIndexes (allGeneratedKeys st'),
            err = None, derivations = dispatched st'\<rparr>" by simp
        with exit [OF inv] False show ?thesis by simp
      qed
    qed
  qed
  with init show ?thesis by (simp add: P_def)
qed

subsection \<open>Facts about every run\<close>

lemma searchIteration_failed_err:
  "searchIteration env ctx params mn cs s = Inl f \<Longrightarrow> err f \<noteq> None"
  by (auto simp: searchIteration_eq split: option.splits)

lemma generateKeysInParallel_enough:
  assumes "generateKeysInParallel env ctx params mn cs = Some r" and "err r = None"
  shows "numKeys params \<le> length (keys r)"
proof -
  have "err r = None \<longrightarrow> numKeys params \<le> length (keys r)"
    using assms(1) unfolding generateKeysInParallel_def
  proof (rule searchLoop_rule [where I = "\<lambda>s::searchState. True"])
    fix s f
    assume "searchIteration env ctx params mn cs s = Inl f"
    then show "err f = None \<longrightarrow> numKeys params \<le> length (keys f)"
      using searchIteration_failed_err by blast
  next
    fix s :: searchState
    assume "numKeys params \<le> length (allGeneratedKeys s)"
    then show "err \<lparr>keys = inlineSortKeysByIndexes (allGeneratedKeys s), err = None,
                     derivations = dispatched s\<rparr> = None \<longrightarrow>
        numKeys params \<le> length (keys \<lparr>keys = inlineSortKeysByIndexes (allGeneratedKeys s),
                     err = None, derivations = dispatched s\<rparr>)"
      by (simp add: length_inlineSortKeysByIndexes)
  qed simp_all
  with assms(2) show ?thesis by simp
qed

lemma iterationTasks_no_tasks: "numTasks params = 0 \<Longrightarrow> iterationTasks env params s = []"
  by (simp add: iterationTasks_def createTasks_def)

subsection \<open>The concrete run, evaluated\<close>

declare searchLoop.simps [code]

lemma example_run:
  "generateKeysInParallel exampleEnv Background exampleFlags ''seed'' exampleConstraints =
     Some \<lparr>keys = [exampleKey 0 0, exampleKey 0 2, exampleKey 0 4, exampleKey 0 6], err = None,
           derivations = allocated exampleEnv exampleFlags 2\<rparr>"
  by code_simp

lemma example_generateKeys:
  "generateKeys exampleEnv exampleFlags =
     Some \<lparr>completion = Returned None,
           exported = Some [exampleKey 0 0, exampleKey 0 2, exampleKey 0 4],
           derivationLog = allocated exampleEnv exampleFlags 2\<rparr>"
  by code_simp

lemma failing_search:
  "generateKeysInParallel failingEnv Background exampleFlags ''seed'' exampleConstraints =
   Some \<lparr>keys = [], err = Some DerivationError, derivations = allocated exampleEnv exampleFlags 2\<rparr>"
  by code_simp

subsection \<open>The accumulator of a search that succeeds\<close>

text \<open>
  As long as no worker fails, the loop state after \<open>k\<close> iterations is \<open>stateAfter k\<close>; a
  search that succeeds returns the sorted matches of the first batch count that has enough.
\<close>

lemma iterationTasks_at:
  "slidingIndex s = startIndex params + k * (numTasks params * fixedTaskSize env) \<Longrightarrow>
   iterationTasks env params s = batchTasks env params k"
  by (simp add: iterationTasks_def batchTasks_def)

lemma searchIteration_stateAfter:
  assumes "searchIteration env ctx params mn cs (stateAfter env params mn cs k) = Inr s'"
  shows "s' = stateAfter env params mn cs (Suc k)"
proof -
  have tasks: "iterationTasks env params (stateAfter env params mn cs k) = batchTasks env params k"
    by (rule iterationTasks_at) (simp add: stateAfter_def)
  show ?thesis
    using assms unfolding searchIteration_eq tasks
    by (auto simp: stateAfter_def split: option.splits)
qed

lemma generateKeysInParallel_success:
  assumes "generateKeysInParallel env ctx params mn cs = Some r" and "err r = None"
  shows "\<exists>n. keys r = inlineSortKeysByIndexes (accumulatedMatches env params mn cs n)
           \<and> numKeys params \<le> length (accumulatedMatches env params mn cs n)
           \<and> (\<forall>m<n. length (accumulatedMatches env params mn cs m) < numKeys params)
           \<and> derivations r = allocated env params n"
proof -
  let ?acc = "accumulatedMatches env params mn cs"
  let ?I = "\<lambda>s. \<exists>k. s = stateAfter env params mn cs k \<and> (\<forall>m<k. length (?acc m) < numKeys params)"
  let ?Q = "\<lambda>r. err r = None \<longrightarrow>
      (\<exists>n. keys r = inlineSortKeysByIndexes (?acc n) \<and> numKeys params \<le> length (?acc n)
         \<and> (\<forall>m<n. length (?acc m) < numKeys params) \<and> derivations r = allocated env params n)"
  have "?Q r"
    using assms(1) unfolding generateKeysInParallel_def
  proof (rule searchLoop_rule [where I = ?I and Q = ?Q])
    show "?I \<lparr>allGeneratedKeys = [], slidingIndex = startIndex params, iteration = 0,
              dispatched = []\<rparr>"
      by (intro exI [of _ 0]) (simp add: stateAfter_def)
  next
    fix s s'
    assume inv: "?I s" and more: "length (allGeneratedKeys s) < numKeys params"
      and it: "searchIteration env ctx params mn cs s = Inr s'"
    from inv obtain k where k: "s = stateAfter env params mn cs k"
      "\<forall>m<k. length (?acc m) < numKeys params" by blast
    from it k(1) have s': "s' = stateAfter env params mn cs (Suc k)"
      using searchIteration_stateAfter by blast
    from more k(1) have "length (?acc k) < numKeys params"
      by (simp add: stateAfter_def)
    with k(2) have "\<forall>m<Suc k. length (?acc m) < numKeys params"
      by (auto simp: less_Suc_eq)
    with s' show "?I s'" by blast
  next
    fix s f
    assume "searchIteration env ctx params mn cs s = Inl f"
    then have "err f \<noteq> None" by (rule searchIteration_failed_err)
    then show "?Q f" by blast
  next
    fix s
    assume inv: "?I s" and enough: "numKeys params \<le> length (allGeneratedKeys s)"
    from inv obtain k where k: "s = stateAfter env params mn cs k"
      "\<forall>m<k. length (?acc m) < numKeys params" by blast
    have "keys \<lparr>keys = inlineSortKeysByIndexes (allGeneratedKeys s), err = None,
                 derivations = dispatched s\<rparr> = inlineSortKeysByIndexes (?acc k)
        \<and> numKeys params \<le> length (?acc k)
        \<and> (\<forall>m<k. length (?acc m) < numKeys params)
        \<and> derivations \<lparr>keys = inlineSortKeysByIndexes (allGeneratedKeys s), err = None,
                 derivations = dispatched s\<rparr> = allocated env params k"
      using k enough by (simp add: stateAfter_def)
    then show "?Q \<lparr>keys = inlineSortKeysByIndexes (allGeneratedKeys s), err = None,
                   derivations = dispatched s\<rparr>"
      by blast
  qed
  with assms(2) show ?thesis by simp
qed

text \<open>What has happened when \<^verbatim>\<open>generateKeys\<close> reaches the exporter.\<close>

lemma generateKeys_exported:
  assumes ret: "generateKeys env params = Some rep" and out: "exported rep = Some ks"
  shows "\<exists>cs mn r.
           newConstraints (numShards params) (actualShard params) (projectedShard params) = Inr cs
         \<and> askMnemonic env = Inr mn
         \<and> generateKeysInParallel env Background params mn cs = Some r
         \<and> err r = None
         \<and> sliceTo (keys r) (numKeys params) = Some ks"
proof (cases "newConstraints (numShards params) (actualShard params) (projectedShard params)")
  case (Inl e)
  with ret out show ?thesis by (auto simp: generateKeys_def)
next
  case cs: (Inr cs)
  show ?thesis
  proof (cases "NewExporter env
           \<lparr>ActualShard = actualShard params, ProjectedShard = projectedShard params,
            StartIndex = startIndex params, NumKeys = numKeys params,
            Format = exportFormat params\<rparr>")
    case (Some e)
    with ret out cs show ?thesis by (auto simp: generateKeys_def)
  next
    case ex: None
    show ?thesis
    proof (cases "askMnemonic env")
      case (Inl e)
      with ret out cs ex show ?thesis by (auto simp: generateKeys_def)
    next
      case mn: (Inr mn)
      show ?thesis
      proof (cases "generateKeysInParallel env Background params mn cs")
        case None
        with ret cs ex mn show ?thesis by (simp add: generateKeys_def)
      next
        case r: (Some r)
        show ?thesis
        proof (cases "err r")
          case (Some e)
          with ret out cs ex mn r show ?thesis by (auto simp: generateKeys_def)
        next
          case noerr: None
          show ?thesis
          proof (cases "sliceTo (keys r) (numKeys params)")
            case None
            with ret out cs ex mn r noerr show ?thesis by (auto simp: generateKeys_def)
          next
            case (Some ks')
            with ret out cs ex mn r noerr have "ks' = ks" by (auto simp: generateKeys_def)
            with Some cs mn r noerr show ?thesis by blast
          qed
        qed
      qed
    qed
  qed
qed

text \<open>
  The keys that reach the exporter are \<open>numKeys\<close> many: the first \<open>numKeys\<close> elements of
  what \<^verbatim>\<open>inlineSortKeysByIndexes\<close> makes of the accumulator, for the first batch count at which
  the accumulator holds \<open>numKeys\<close> matches.
\<close>

lemma generateKeys_exports_cut:
  assumes "generateKeys env cliFlags = Some rep" and "exported rep = Some ks"
  shows "length ks = numKeys cliFlags
       \<and> (\<exists>cs mn n.
             newConstraints (numShards cliFlags) (actualShard cliFlags) (projectedShard cliFlags)
               = Inr cs
           \<and> askMnemonic env = Inr mn
           \<and> numKeys cliFlags \<le> length (accumulatedMatches env cliFlags mn cs n)
           \<and> (\<forall>m<n. length (accumulatedMatches env cliFlags mn cs m) < numKeys cliFlags)
           \<and> ks = take (numKeys cliFlags)
                    (inlineSortKeysByIndexes (accumulatedMatches env cliFlags mn cs n)))"
proof -
  from generateKeys_exported [OF assms] obtain cs mn r where
    cs: "newConstraints (numShards cliFlags) (actualShard cliFlags) (projectedShard cliFlags)
           = Inr cs"
    and mn: "askMnemonic env = Inr mn"
    and r: "generateKeysInParallel env Background cliFlags mn cs = Some r" "err r = None"
    and cut: "sliceTo (keys r) (numKeys cliFlags) = Some ks"
    by blast
  from generateKeysInParallel_success [OF r] obtain n where
    n: "keys r = inlineSortKeysByIndexes (accumulatedMatches env cliFlags mn cs n)"
      "numKeys cliFlags \<le> length (accumulatedMatches env cliFlags mn cs n)"
      "\<forall>m<n. length (accumulatedMatches env cliFlags mn cs m) < numKeys cliFlags"
    by blast
  from cut have ks: "ks = take (numKeys cliFlags) (keys r)" "numKeys cliFlags \<le> length (keys r)"
    by (auto simp: sliceTo_def split: if_splits)
  then have len: "length ks = numKeys cliFlags" by simp
  from ks(1) n(1) have final: "ks = take (numKeys cliFlags)
      (inlineSortKeysByIndexes (accumulatedMatches env cliFlags mn cs n))"
    by simp
  have "newConstraints (numShards cliFlags) (actualShard cliFlags) (projectedShard cliFlags)
          = Inr cs
      \<and> askMnemonic env = Inr mn
      \<and> numKeys cliFlags \<le> length (accumulatedMatches env cliFlags mn cs n)
      \<and> (\<forall>m<n. length (accumulatedMatches env cliFlags mn cs m) < numKeys cliFlags)
      \<and> ks = take (numKeys cliFlags)
               (inlineSortKeysByIndexes (accumulatedMatches env cliFlags mn cs n))"
    by (intro conjI cs mn n(2) n(3) final)
  then show ?thesis using len by blast
qed

subsection \<open>The indexes handed out\<close>

lemma taskIndexes_makeTask: "taskIndexes (makeTask w s u i) = [s + i * w..<s + i * w + w]"
  by (simp add: taskIndexes_def makeTask_def ac_simps)

lemma concat_taskIndexes_createTasks:
  "concat (map taskIndexes (fst (createTasks w n s u))) = [s..<s + n * w]"
proof (induction n)
  case 0
  then show ?case by (simp add: createTasks_def)
next
  case (Suc n)
  have "[s..<s + n * w + w] = [s..<s + n * w] @ [s + n * w..<s + n * w + w]"
    by (rule upt_add_eq_append) simp
  with Suc show ?case
    by (simp add: createTasks_def taskIndexes_makeTask add.commute add.left_commute)
qed

lemma snd_successiveBatches: "snd (successiveBatches w n u s k) = s + k * (n * w)"
  by (induction k arbitrary: s) (simp_all add: Let_def snd_createTasks add.assoc)

lemma concat_taskIndexes_successiveBatches:
  "concat (map taskIndexes (fst (successiveBatches w n u s k))) = [s..<s + k * (n * w)]"
proof (induction k arbitrary: s)
  case 0
  then show ?case by simp
next
  case (Suc k)
  have "[s..<s + n * w + k * (n * w)] = [s..<s + n * w] @ [s + n * w..<s + n * w + k * (n * w)]"
    by (rule upt_add_eq_append) simp
  then show ?case
    by (simp add: Let_def snd_createTasks concat_taskIndexes_createTasks Suc.IH add.assoc)
qed

lemma fst_successiveBatches_Suc:
  "fst (successiveBatches w n u s (Suc k)) =
     fst (successiveBatches w n u s k) @ fst (createTasks w n (s + k * (n * w)) u)"
proof (induction k arbitrary: s)
  case 0
  then show ?case by (simp add: Let_def)
next
  case (Suc k)
  have "fst (successiveBatches w n u s (Suc (Suc k))) =
      fst (createTasks w n s u) @ fst (successiveBatches w n u (s + n * w) (Suc k))"
    by (simp add: Let_def snd_createTasks)
  also have "\<dots> = fst (createTasks w n s u) @ (fst (successiveBatches w n u (s + n * w) k)
      @ fst (createTasks w n (s + n * w + k * (n * w)) u))"
    by (simp only: Suc.IH)
  also have "\<dots> = fst (successiveBatches w n u s (Suc k))
      @ fst (createTasks w n (s + Suc k * (n * w)) u)"
    by (simp add: Let_def snd_createTasks add.assoc)
  finally show ?case .
qed

lemma allocated_successiveBatches:
  "allocated env params k =
     fst (successiveBatches (fixedTaskSize env) (numTasks params) (useAccountIndex params)
            (startIndex params) k)"
proof (induction k)
  case 0
  then show ?case by simp
next
  case (Suc k)
  then show ?case
    by (simp only: allocated.simps fst_successiveBatches_Suc batchTasks_def)
qed

lemma generateKeysInParallel_derivations:
  assumes "generateKeysInParallel env ctx params mn cs = Some r"
  shows "\<exists>k. derivations r = allocated env params k"
  using assms unfolding generateKeysInParallel_def
proof (rule searchLoop_rule [where
      I = "\<lambda>s::searchState. \<exists>k. dispatched s = allocated env params k
             \<and> slidingIndex s = startIndex params + k * (numTasks params * fixedTaskSize env)"])
  show "\<exists>k. dispatched \<lparr>allGeneratedKeys = [], slidingIndex = startIndex params,
                iteration = 0, dispatched = []\<rparr> = allocated env params k
      \<and> slidingIndex \<lparr>allGeneratedKeys = [], slidingIndex = startIndex params,
                iteration = 0, dispatched = []\<rparr>
          = startIndex params + k * (numTasks params * fixedTaskSize env)"
    by (intro exI [of _ 0]) simp
next
  fix s s'
  assume "\<exists>k. dispatched s = allocated env params k
      \<and> slidingIndex s = startIndex params + k * (numTasks params * fixedTaskSize env)"
    and it: "searchIteration env ctx params mn cs s = Inr s'"
  then obtain k where k: "dispatched s = allocated env params k"
    "slidingIndex s = startIndex params + k * (numTasks params * fixedTaskSize env)" by blast
  have tasks: "iterationTasks env params s = batchTasks env params k"
    using k(2) by (rule iterationTasks_at)
  from it have "dispatched s' = allocated env params (Suc k)
      \<and> slidingIndex s' = startIndex params + Suc k * (numTasks params * fixedTaskSize env)"
    unfolding searchIteration_eq tasks using k by (auto split: option.splits)
  then show "\<exists>k. dispatched s' = allocated env params k
      \<and> slidingIndex s' = startIndex params + k * (numTasks params * fixedTaskSize env)"
    by blast
next
  fix s f
  assume "\<exists>k. dispatched s = allocated env params k
      \<and> slidingIndex s = startIndex params + k * (numTasks params * fixedTaskSize env)"
    and it: "searchIteration env ctx params mn cs s = Inl f"
  then obtain k where k: "dispatched s = allocated env params k"
    "slidingIndex s = startIndex params + k * (numTasks params * fixedTaskSize env)" by blast
  have tasks: "iterationTasks env params s = batchTasks env params k"
    using k(2) by (rule iterationTasks_at)
  from it have "derivations f = allocated env params (Suc k)"
    unfolding searchIteration_eq tasks using k by (auto split: option.splits)
  then show "\<exists>k. derivations f = allocated env params k" by blast
next
  fix s :: searchState
  assume "\<exists>k. dispatched s = allocated env params k
      \<and> slidingIndex s = startIndex params + k * (numTasks params * fixedTaskSize env)"
  then show "\<exists>k. derivations \<lparr>keys = inlineSortKeysByIndexes (allGeneratedKeys s), err = None,
      derivations = dispatched s\<rparr> = allocated env params k"
    by auto
qed

subsection \<open>Two runs side by side\<close>

text \<open>
  If each iteration of one run fails when that of the other does, with related results, and
  otherwise leads to the same state, then when the first run returns the second does, with a
  related result.
\<close>

lemma searchLoop_simulation:
  assumes ret: "searchLoop env ctx params mn cs st = Some r"
    and iter: "\<And>s. rel_sum R (=) (searchIteration env ctx params mn cs s)
                      (searchIteration env' ctx' params mn cs s)"
    and refl: "\<And>x. R x x"
  shows "\<exists>r'. searchLoop env' ctx' params mn cs st = Some r' \<and> R r r'"
  using ret
proof (rule searchLoop_rule [where
      I = "\<lambda>s. searchLoop env' ctx' params mn cs s = searchLoop env' ctx' params mn cs st"])
  show "searchLoop env' ctx' params mn cs st = searchLoop env' ctx' params mn cs st"
    by simp
next
  fix s s'
  assume inv: "searchLoop env' ctx' params mn cs s = searchLoop env' ctx' params mn cs st"
    and more: "length (allGeneratedKeys s) < numKeys params"
    and it: "searchIteration env ctx params mn cs s = Inr s'"
  from iter [of s] it have "searchIteration env' ctx' params mn cs s = Inr s'"
    by (cases "searchIteration env' ctx' params mn cs s") simp_all
  with more have "searchLoop env' ctx' params mn cs s = searchLoop env' ctx' params mn cs s'"
    by (subst searchLoop.simps) simp
  with inv show "searchLoop env' ctx' params mn cs s' = searchLoop env' ctx' params mn cs st"
    by simp
next
  fix s f
  assume inv: "searchLoop env' ctx' params mn cs s = searchLoop env' ctx' params mn cs st"
    and more: "length (allGeneratedKeys s) < numKeys params"
    and it: "searchIteration env ctx params mn cs s = Inl f"
  from iter [of s] it obtain f' where f': "searchIteration env' ctx' params mn cs s = Inl f'"
    "R f f'"
    by (cases "searchIteration env' ctx' params mn cs s") simp_all
  with more have "searchLoop env' ctx' params mn cs s = Some f'"
    by (subst searchLoop.simps) simp
  with inv have "searchLoop env' ctx' params mn cs st = Some f'"
    by simp
  with f'(2) show "\<exists>r'. searchLoop env' ctx' params mn cs st = Some r' \<and> R f r'"
    by blast
next
  fix s
  assume inv: "searchLoop env' ctx' params mn cs s = searchLoop env' ctx' params mn cs st"
    and enough: "numKeys params \<le> length (allGeneratedKeys s)"
  let ?r = "\<lparr>keys = inlineSortKeysByIndexes (allGeneratedKeys s), err = None,
             derivations = dispatched s\<rparr>"
  from enough have "searchLoop env' ctx' params mn cs s = Some ?r"
    by (subst searchLoop.simps) simp
  with inv have "searchLoop env' ctx' params mn cs st = Some ?r"
    by simp
  with refl [of ?r] show "\<exists>r'. searchLoop env' ctx' params mn cs st = Some r' \<and> R ?r r'"
    by blast
qed

lemma searchIteration_schedulers:
  "rel_sum sameOutcome (=)
     (searchIteration (env\<lparr>scheduler := p\<rparr>) ctx params mn cs s)
     (searchIteration (env\<lparr>scheduler := q\<rparr>) ctx params mn cs s)"
proof -
  let ?gen = "\<lambda>t. doGenerateKeys env t mn cs"
  let ?tasks = "iterationTasks env params s"
  let ?op = "completionOrder (p (iteration s)) (numTasks params)"
  let ?oq = "completionOrder (q (iteration s)) (numTasks params)"
  have tasks: "iterationTasks (env\<lparr>scheduler := x\<rparr>) params s = ?tasks" for x
    by (simp add: iterationTasks_def)
  have same: "firstFailure ?gen ?tasks ?op = None \<longleftrightarrow> firstFailure ?gen ?tasks ?oq = None"
    by (simp only: firstFailure_None set_completionOrder)
  show ?thesis
  proof (cases "firstFailure ?gen ?tasks ?op")
    case None
    with same have "firstFailure ?gen ?tasks ?oq = None" by simp
    with None show ?thesis
      by (simp add: searchIteration_eq tasks)
  next
    case (Some e)
    with same obtain e' where "firstFailure ?gen ?tasks ?oq = Some e'" by auto
    with Some show ?thesis
      by (simp add: searchIteration_eq tasks sameOutcome_def)
  qed
qed

lemma sameOutcome_refl: "sameOutcome r r"
  by (simp add: sameOutcome_def)

lemma searchIteration_context:
  "rel_sum (=) (=) (searchIteration env ctx params mn cs s)
     (searchIteration env ctx' params mn cs s)"
  by (simp add: searchIteration_eq sum.rel_eq)

subsection \<open>When the search returns\<close>

text \<open>
  If no worker of the first \<open>n\<close> batches fails and the matches reach \<open>numKeys\<close> with the
  \<open>n\<close>-th batch and not before, the search returns, with the sorted matches of these batches.
\<close>

lemma searchIteration_all_succeed:
  assumes "\<forall>t\<in>set (batchTasks env params k). \<exists>ks. doGenerateKeys env t mn cs = Inr ks"
  shows "searchIteration env ctx params mn cs (stateAfter env params mn cs k)
           = Inr (stateAfter env params mn cs (Suc k))"
proof -
  let ?st = "stateAfter env params mn cs k"
  let ?gen = "\<lambda>t. doGenerateKeys env t mn cs"
  have tasks: "iterationTasks env params ?st = batchTasks env params k"
    by (rule iterationTasks_at) (simp add: stateAfter_def)
  have len: "length (batchTasks env params k) = numTasks params"
    by (simp add: batchTasks_def length_createTasks)
  have "firstFailure ?gen (batchTasks env params k)
      (completionOrder (scheduler env (iteration ?st)) (numTasks params)) = None"
    unfolding firstFailure_None set_completionOrder
  proof
    fix i
    assume "i \<in> {0..<numTasks params}"
    then have "batchTasks env params k ! i \<in> set (batchTasks env params k)"
      using len by simp
    with assms show "\<exists>ks. ?gen (batchTasks env params k ! i) = Inr ks"
      by blast
  qed
  then show ?thesis
    unfolding searchIteration_eq tasks by (simp add: stateAfter_def)
qed

lemma searchLoop_returns:
  assumes "k \<le> n"
    and "\<forall>j<n. length (accumulatedMatches env params mn cs j) < numKeys params"
    and "\<forall>j<n. \<forall>t\<in>set (batchTasks env params j). \<exists>ks. doGenerateKeys env t mn cs = Inr ks"
    and "numKeys params \<le> length (accumulatedMatches env params mn cs n)"
  shows "searchLoop env ctx params mn cs (stateAfter env params mn cs k) =
           Some \<lparr>keys = inlineSortKeysByIndexes (accumulatedMatches env params mn cs n),
                 err = None, derivations = allocated env params n\<rparr>"
  using assms(1)
proof (induction rule: inc_induct)
  case base
  show ?case
    using assms(4) by (subst searchLoop.simps) (simp add: stateAfter_def)
next
  case (step j)
  from step.hyps(2) assms(2) have
    more: "length (allGeneratedKeys (stateAfter env params mn cs j)) < numKeys params"
    by (simp add: stateAfter_def)
  from step.hyps(2) assms(3) have
    "\<forall>t\<in>set (batchTasks env params j). \<exists>ks. doGenerateKeys env t mn cs = Inr ks"
    by blast
  then have "searchIteration env ctx params mn cs (stateAfter env params mn cs j)
      = Inr (stateAfter env params mn cs (Suc j))"
    by (rule searchIteration_all_succeed)
  with more have "searchLoop env ctx params mn cs (stateAfter env params mn cs j)
      = searchLoop env ctx params mn cs (stateAfter env params mn cs (Suc j))"
    by (subst searchLoop.simps) simp
  with step.IH show ?case by simp
qed

lemma generateKeysInParallel_returns:
  assumes "\<forall>j<n. length (accumulatedMatches env params mn cs j) < numKeys params"
    and "\<forall>j<n. \<forall>t\<in>set (batchTasks env params j). \<exists>ks. doGenerateKeys env t mn cs = Inr ks"
    and "numKeys params \<le> length (accumulatedMatches env params mn cs n)"
  shows "generateKeysInParallel env ctx params mn cs =
           Some \<lparr>keys = inlineSortKeysByIndexes (accumulatedMatches env params mn cs n),
                 err = None, derivations = allocated env params n\<rparr>"
proof -
  have "stateAfter env params mn cs 0 =
      \<lparr>allGeneratedKeys = [], slidingIndex = startIndex params, iteration = 0,
       dispatched = []\<rparr>"
    by (simp add: stateAfter_def)
  then show ?thesis
    using searchLoop_returns [of 0 n env params mn cs ctx] assms
    by (simp add: generateKeysInParallel_def)
qed

section \<open>The properties\<close>

text \<open>
  C1. For every successful search the returned keys are sorted ascending by the pair of
  account index and address index, in the lexicographic order: account index first, address
  index only between equal account indexes. The comparator of \<^verbatim>\<open>inlineSortKeysByIndexes\<close>
  does not implement that order: it answers "less" whenever the address index is smaller,
  also when the account index is greater. On the slice holding the keys \<open>(0, 1)\<close> and
  \<open>(1, 0)\<close>, which is sorted, it answers "less" both ways round, and the sort returns the
  two keys swapped, which is not sorted.
\<close>

theorem inlineSortKeysByIndexes_unsorts:
  "sortedByIndexes [exampleKey 0 1, exampleKey 1 0]
   \<and> inlineSortKeysByIndexes [exampleKey 0 1, exampleKey 1 0]
       = [exampleKey 1 0, exampleKey 0 1]
   \<and> \<not> sortedByIndexes (inlineSortKeysByIndexes [exampleKey 0 1, exampleKey 1 0])
   \<and> keyLess (exampleKey 0 1) (exampleKey 1 0)
   \<and> keyLess (exampleKey 1 0) (exampleKey 0 1)"
  by (simp add: inlineSortKeysByIndexes_def sort_Slice_def keyLess_def exampleKey_def
      sortedByIndexes_def lexLess_def)

text \<open>
  C8. When zero keys are requested the search returns the empty result at once: the loop
  body is not entered, so no task is created and no worker runs.
\<close>

theorem generateKeysInParallel_zero_keys:
  "generateKeysInParallel env ctx (params\<lparr>numKeys := 0\<rparr>) mn cs
     = Some \<lparr>keys = [], err = None, derivations = []\<rparr>"
  by (simp add: generateKeysInParallel_def searchLoop.simps inlineSortKeysByIndexes_Nil)

text \<open>
  C6. A shard constraint that does not fit the number of shards (shard 5 of 2, say) is a
  configuration error, returned before any key is derived. \<^verbatim>\<open>generateKeys\<close> calls
  \<^verbatim>\<open>newConstraints\<close> first and returns its error; the exporter is not built, the mnemonic is
  not read, the search is not started and no task reaches a worker.
\<close>

theorem generateKeys_rejects_shard:
  assumes "actualShard cliFlags = Some sh \<or> projectedShard cliFlags = Some sh"
    and "numShards cliFlags \<le> sh"
  shows "generateKeys env cliFlags =
           Some \<lparr>completion = Returned (Some ConfigurationError), exported = None,
                 derivationLog = []\<rparr>"
  using assms by (auto simp: generateKeys_def newConstraints_def shardOutOfRange_def)

theorem generateKeys_rejects_shard_witness:
  "(actualShard (exampleFlags\<lparr>actualShard := Some 5\<rparr>) = Some 5
      \<or> projectedShard (exampleFlags\<lparr>actualShard := Some 5\<rparr>) = Some 5)
   \<and> numShards (exampleFlags\<lparr>actualShard := Some 5\<rparr>) \<le> 5
   \<and> generateKeys exampleEnv (exampleFlags\<lparr>actualShard := Some 5\<rparr>) =
           Some \<lparr>completion = Returned (Some ConfigurationError), exported = None,
                 derivationLog = []\<rparr>"
proof -
  have shard: "actualShard (exampleFlags\<lparr>actualShard := Some 5\<rparr>) = Some 5
      \<or> projectedShard (exampleFlags\<lparr>actualShard := Some 5\<rparr>) = Some 5"
    by simp
  have shards: "numShards (exampleFlags\<lparr>actualShard := Some 5\<rparr>) \<le> 5"
    by (simp add: exampleFlags_def)
  show ?thesis
    by (intro conjI shard shards generateKeys_rejects_shard [OF shard shards])
qed

text \<open>
  C9. Whenever \<^verbatim>\<open>generateKeysInParallel\<close> returns without an error, the slice it returns
  holds at least \<open>numKeys\<close> keys: the loop is left only when the accumulator is that long, and
  sorting keeps its length. So the slice expression in \<^verbatim>\<open>generateKeys\<close> is within bounds,
  and no run of \<^verbatim>\<open>generateKeys\<close> ends in a panic.
\<close>

theorem truncation_within_bounds:
  "(generateKeysInParallel env ctx params mn cs = Some r \<and> err r = None
      \<longrightarrow> numKeys params \<le> length (keys r)
          \<and> sliceTo (keys r) (numKeys params) = Some (take (numKeys params) (keys r)))
   \<and> (generateKeys env params = Some rep \<longrightarrow> completion rep \<noteq> Panicked)"
proof (intro conjI impI)
  assume a: "generateKeysInParallel env ctx params mn cs = Some r \<and> err r = None"
  then show "numKeys params \<le> length (keys r)"
    using generateKeysInParallel_enough by blast
  then show "sliceTo (keys r) (numKeys params) = Some (take (numKeys params) (keys r))"
    by (simp add: sliceTo_def)
next
  assume ret: "generateKeys env params = Some rep"
  show "completion rep \<noteq> Panicked"
  proof (cases "newConstraints (numShards params) (actualShard params) (projectedShard params)")
    case (Inl e)
    with ret show ?thesis by (auto simp: generateKeys_def)
  next
    case cs: (Inr cs)
    show ?thesis
    proof (cases "NewExporter env
             \<lparr>ActualShard = actualShard params, ProjectedShard = projectedShard params,
              StartIndex = startIndex params, NumKeys = numKeys params,
              Format = exportFormat params\<rparr>")
      case (Some e)
      with ret cs show ?thesis by (auto simp: generateKeys_def)
    next
      case ex: None
      show ?thesis
      proof (cases "askMnemonic env")
        case (Inl e)
        with ret cs ex show ?thesis by (auto simp: generateKeys_def)
      next
        case mn: (Inr mn)
        show ?thesis
        proof (cases "generateKeysInParallel env Background params mn cs")
          case None
          with ret cs ex mn show ?thesis by (simp add: generateKeys_def)
        next
          case r: (Some r)
          show ?thesis
          proof (cases "err r")
            case (Some e)
            with ret cs ex mn r show ?thesis by (auto simp: generateKeys_def)
          next
            case None
            with r have "numKeys params \<le> length (keys r)"
              by (rule generateKeysInParallel_enough)
            then have "sliceTo (keys r) (numKeys params) = Some (take (numKeys params) (keys r))"
              by (simp add: sliceTo_def)
            with ret cs ex mn r None show ?thesis by (auto simp: generateKeys_def)
          qed
        qed
      qed
    qed
  qed
qed

theorem truncation_within_bounds_witness:
  "(generateKeysInParallel exampleEnv Background exampleFlags ''seed'' exampleConstraints =
      Some \<lparr>keys = [exampleKey 0 0, exampleKey 0 2, exampleKey 0 4, exampleKey 0 6],
            err = None, derivations = allocated exampleEnv exampleFlags 2\<rparr>
    \<and> err \<lparr>keys = [exampleKey 0 0, exampleKey 0 2, exampleKey 0 4, exampleKey 0 6],
            err = None, derivations = allocated exampleEnv exampleFlags 2\<rparr> = None)
   \<and> generateKeys exampleEnv exampleFlags =
      Some \<lparr>completion = Returned None,
            exported = Some [exampleKey 0 0, exampleKey 0 2, exampleKey 0 4],
            derivationLog = allocated exampleEnv exampleFlags 2\<rparr>
   \<and> (numKeys exampleFlags
        \<le> length (keys \<lparr>keys = [exampleKey 0 0, exampleKey 0 2, exampleKey 0 4, exampleKey 0 6],
            err = None, derivations = allocated exampleEnv exampleFlags 2\<rparr>)
      \<and> sliceTo (keys \<lparr>keys = [exampleKey 0 0, exampleKey 0 2, exampleKey 0 4, exampleKey 0 6],
            err = None, derivations = allocated exampleEnv exampleFlags 2\<rparr>)
           (numKeys exampleFlags)
         = Some (take (numKeys exampleFlags)
             (keys \<lparr>keys = [exampleKey 0 0, exampleKey 0 2, exampleKey 0 4, exampleKey 0 6],
               err = None, derivations = allocated exampleEnv exampleFlags 2\<rparr>)))
   \<and> completion \<lparr>completion = Returned None,
            exported = Some [exampleKey 0 0, exampleKey 0 2, exampleKey 0 4],
            derivationLog = allocated exampleEnv exampleFlags 2\<rparr> \<noteq> Panicked"
proof -
  let ?r = "\<lparr>keys = [exampleKey 0 0, exampleKey 0 2, exampleKey 0 4, exampleKey 0 6],
            err = None, derivations = allocated exampleEnv exampleFlags 2\<rparr>"
  let ?rep = "\<lparr>completion = Returned None,
            exported = Some [exampleKey 0 0, exampleKey 0 2, exampleKey 0 4],
            derivationLog = allocated exampleEnv exampleFlags 2\<rparr>"
  note bounds = truncation_within_bounds [of exampleEnv Background exampleFlags "''seed''"
      exampleConstraints ?r ?rep]
  have run: "generateKeysInParallel exampleEnv Background exampleFlags ''seed''
      exampleConstraints = Some ?r \<and> err ?r = None"
    by (simp add: example_run)
  have whole: "generateKeys exampleEnv exampleFlags = Some ?rep"
    by (rule example_generateKeys)
  show ?thesis
    by (intro conjI run [THEN conjunct1] run [THEN conjunct2] whole
        bounds [THEN conjunct1, THEN mp, OF run, THEN conjunct1]
        bounds [THEN conjunct1, THEN mp, OF run, THEN conjunct2]
        bounds [THEN conjunct2, THEN mp, OF whole])
qed

text \<open>
  C10. With no tasks per iteration and at least one key requested, the search never returns:
  an iteration without tasks runs no worker and adds no key, so the loop condition stays
  true.
\<close>

theorem no_tasks_never_returns:
  assumes "numTasks params = 0" and "1 \<le> numKeys params"
  shows "generateKeysInParallel env ctx params mn cs = None"
proof (rule ccontr)
  assume "generateKeysInParallel env ctx params mn cs \<noteq> None"
  then obtain r where "searchLoop env ctx params mn cs
      \<lparr>allGeneratedKeys = [], slidingIndex = startIndex params, iteration = 0,
       dispatched = []\<rparr> = Some r"
    by (auto simp: generateKeysInParallel_def)
  then show False
  proof (rule searchLoop_rule [where I = "\<lambda>s::searchState. allGeneratedKeys s = []"])
    fix s s'
    assume "allGeneratedKeys s = []" "searchIteration env ctx params mn cs s = Inr s'"
    then show "allGeneratedKeys s' = []"
      using assms(1)
      by (auto simp: searchIteration_eq iterationTasks_no_tasks split: option.splits)
  next
    fix s f
    assume "searchIteration env ctx params mn cs s = Inl f"
    then show False
      using assms(1)
      by (auto simp: searchIteration_eq iterationTasks_no_tasks completionOrder_def
          split: option.splits)
  next
    fix s :: searchState
    assume "allGeneratedKeys s = []" "numKeys params \<le> length (allGeneratedKeys s)"
    then show False using assms(2) by simp
  qed simp
qed

theorem no_tasks_never_returns_witness:
  "numTasks (exampleFlags\<lparr>numTasks := 0\<rparr>) = 0
   \<and> 1 \<le> numKeys (exampleFlags\<lparr>numTasks := 0\<rparr>)
   \<and> generateKeysInParallel exampleEnv Background (exampleFlags\<lparr>numTasks := 0\<rparr>) ''seed''
        exampleConstraints = None"
proof -
  have none: "numTasks (exampleFlags\<lparr>numTasks := 0\<rparr>) = 0"
    by simp
  have some: "1 \<le> numKeys (exampleFlags\<lparr>numTasks := 0\<rparr>)"
    by (simp add: exampleFlags_def)
  show ?thesis
    by (intro conjI none some no_tasks_never_returns [OF none some])
qed

text \<open>
  C3. If a worker of an iteration fails, the search ends in that iteration and returns the
  error of the first worker that failed, with no keys: the slots of the iteration, also
  those filled by workers that succeeded, are not appended to the accumulator, and the keys
  accumulated before are not returned. The statement is about any state in which the loop
  body is entered; the tasks run are those of the earlier iterations and of this one.
\<close>

theorem worker_failure_aborts:
  assumes "length (allGeneratedKeys st) < numKeys params"
    and "i < numTasks params"
    and "doGenerateKeys env (iterationTasks env params st ! i) mn cs = Inl e"
  shows "\<exists>before j after e'.
           completionOrder (scheduler env (iteration st)) (numTasks params) = before @ j # after
         \<and> (\<forall>k\<in>set before. \<exists>ks. doGenerateKeys env (iterationTasks env params st ! k) mn cs = Inr ks)
         \<and> doGenerateKeys env (iterationTasks env params st ! j) mn cs = Inl e'
         \<and> searchLoop env ctx params mn cs st =
             Some \<lparr>keys = [], err = Some e',
                   derivations = dispatched st @ iterationTasks env params st\<rparr>"
proof -
  let ?gen = "\<lambda>t. doGenerateKeys env t mn cs"
  let ?tasks = "iterationTasks env params st"
  let ?order = "completionOrder (scheduler env (iteration st)) (numTasks params)"
  have mem: "i \<in> set ?order"
    using assms(2) by (simp add: set_completionOrder)
  have "firstFailure ?gen ?tasks ?order \<noteq> None"
  proof
    assume "firstFailure ?gen ?tasks ?order = None"
    then have "\<forall>k\<in>set ?order. \<exists>ks. ?gen (?tasks ! k) = Inr ks"
      by (simp only: firstFailure_None)
    with mem obtain ks where "?gen (?tasks ! i) = Inr ks"
      by blast
    with assms(3) show False by simp
  qed
  then obtain e' where e': "firstFailure ?gen ?tasks ?order = Some e'"
    by blast
  from firstFailure_Some [OF this] obtain before j after where
    split: "?order = before @ j # after" "?gen (?tasks ! j) = Inl e'"
      "\<forall>k\<in>set before. \<exists>ks. ?gen (?tasks ! k) = Inr ks"
    by blast
  have "searchIteration env ctx params mn cs st =
      Inl \<lparr>keys = [], err = Some e', derivations = dispatched st @ ?tasks\<rparr>"
    using e' by (simp add: searchIteration_eq)
  then have "searchLoop env ctx params mn cs st =
      Some \<lparr>keys = [], err = Some e', derivations = dispatched st @ ?tasks\<rparr>"
    using assms(1) by (subst searchLoop.simps) simp
  with split show ?thesis by blast
qed

theorem worker_failure_aborts_witness:
  "length (allGeneratedKeys (stateAfter exampleEnv exampleFlags ''seed'' exampleConstraints 1))
     < numKeys exampleFlags
   \<and> 0 < numTasks exampleFlags
   \<and> doGenerateKeys failingEnv
        (iterationTasks failingEnv exampleFlags
           (stateAfter exampleEnv exampleFlags ''seed'' exampleConstraints 1) ! 0)
        ''seed'' exampleConstraints = Inl DerivationError
   \<and> (\<exists>before j after e'.
         completionOrder (scheduler failingEnv
             (iteration (stateAfter exampleEnv exampleFlags ''seed'' exampleConstraints 1)))
           (numTasks exampleFlags) = before @ j # after
       \<and> (\<forall>k\<in>set before. \<exists>ks. doGenerateKeys failingEnv
             (iterationTasks failingEnv exampleFlags
                (stateAfter exampleEnv exampleFlags ''seed'' exampleConstraints 1) ! k)
             ''seed'' exampleConstraints = Inr ks)
       \<and> doGenerateKeys failingEnv
             (iterationTasks failingEnv exampleFlags
                (stateAfter exampleEnv exampleFlags ''seed'' exampleConstraints 1) ! j)
             ''seed'' exampleConstraints = Inl e'
       \<and> searchLoop failingEnv Background exampleFlags ''seed'' exampleConstraints
             (stateAfter exampleEnv exampleFlags ''seed'' exampleConstraints 1) =
           Some \<lparr>keys = [], err = Some e',
                 derivations =
                   dispatched (stateAfter exampleEnv exampleFlags ''seed'' exampleConstraints 1)
                   @ iterationTasks failingEnv exampleFlags
                       (stateAfter exampleEnv exampleFlags ''seed'' exampleConstraints 1)\<rparr>)"
proof -
  let ?st = "stateAfter exampleEnv exampleFlags ''seed'' exampleConstraints 1"
  have entered: "length (allGeneratedKeys ?st) < numKeys exampleFlags"
    by code_simp
  have worker: "0 < numTasks exampleFlags"
    by code_simp
  have fails: "doGenerateKeys failingEnv (iterationTasks failingEnv exampleFlags ?st ! 0)
      ''seed'' exampleConstraints = Inl DerivationError"
    by code_simp
  show ?thesis
    by (intro conjI entered worker fails
        worker_failure_aborts [OF entered worker fails, of Background])
qed

text \<open>
  C5. The allocator returns the sliding index advanced by the number of tasks times the
  task width. Called any number of times in a row, each call starting where the previous
  one ended, it hands out ranges that, read in order, enumerate the interval from the start
  index to the last sliding index, every index once: no gap, no overlap, increasing. The
  search calls the allocator in just this way, so the tasks it runs never scan an index
  twice. How an index becomes a pair of account and address index is the worker's matter.
\<close>

theorem allocator_partitions:
  "snd (createTasks w n s u) = s + n * w
   \<and> snd (successiveBatches w n u s k) = s + k * (n * w)
   \<and> concat (map taskIndexes (fst (successiveBatches w n u s k)))
       = [s..<snd (successiveBatches w n u s k)]
   \<and> (generateKeysInParallel env ctx params mn cs = Some r \<longrightarrow>
        (\<exists>j. derivations r
               = fst (successiveBatches (fixedTaskSize env) (numTasks params)
                        (useAccountIndex params) (startIndex params) j))
        \<and> distinct (concat (map taskIndexes (derivations r))))"
proof (intro conjI impI)
  show "snd (createTasks w n s u) = s + n * w"
    by (rule snd_createTasks)
  show "snd (successiveBatches w n u s k) = s + k * (n * w)"
    by (rule snd_successiveBatches)
  show "concat (map taskIndexes (fst (successiveBatches w n u s k)))
      = [s..<snd (successiveBatches w n u s k)]"
    by (simp only: concat_taskIndexes_successiveBatches snd_successiveBatches)
next
  assume "generateKeysInParallel env ctx params mn cs = Some r"
  then obtain j where j: "derivations r = allocated env params j"
    using generateKeysInParallel_derivations by blast
  then show "\<exists>j. derivations r
               = fst (successiveBatches (fixedTaskSize env) (numTasks params)
                        (useAccountIndex params) (startIndex params) j)"
    by (auto simp: allocated_successiveBatches)
  from j show "distinct (concat (map taskIndexes (derivations r)))"
    by (simp add: allocated_successiveBatches concat_taskIndexes_successiveBatches)
qed

theorem allocator_partitions_witness:
  "generateKeysInParallel exampleEnv Background exampleFlags ''seed'' exampleConstraints =
      Some \<lparr>keys = [exampleKey 0 0, exampleKey 0 2, exampleKey 0 4, exampleKey 0 6],
            err = None, derivations = allocated exampleEnv exampleFlags 2\<rparr>
   \<and> snd (createTasks 2 2 0 False) = 0 + 2 * 2
   \<and> snd (successiveBatches 2 2 False 0 2) = 0 + 2 * (2 * 2)
   \<and> concat (map taskIndexes (fst (successiveBatches 2 2 False 0 2)))
       = [0..<snd (successiveBatches 2 2 False 0 2)]
   \<and> (\<exists>j. derivations \<lparr>keys = [exampleKey 0 0, exampleKey 0 2, exampleKey 0 4, exampleKey 0 6],
            err = None, derivations = allocated exampleEnv exampleFlags 2\<rparr>
          = fst (successiveBatches (fixedTaskSize exampleEnv) (numTasks exampleFlags)
                   (useAccountIndex exampleFlags) (startIndex exampleFlags) j))
   \<and> distinct (concat (map taskIndexes
        (derivations \<lparr>keys = [exampleKey 0 0, exampleKey 0 2, exampleKey 0 4, exampleKey 0 6],
            err = None, derivations = allocated exampleEnv exampleFlags 2\<rparr>)))"
proof -
  note part = allocator_partitions [where w = 2 and n = 2 and s = 0 and u = False and k = 2
      and env = exampleEnv and ctx = Background and params = exampleFlags and mn = "''seed''"
      and cs = exampleConstraints
      and r = "\<lparr>keys = [exampleKey 0 0, exampleKey 0 2, exampleKey 0 4, exampleKey 0 6],
            err = None, derivations = allocated exampleEnv exampleFlags 2\<rparr>"]
  note search = part [THEN conjunct2, THEN conjunct2, THEN conjunct2, THEN mp, OF example_run]
  show ?thesis
    by (intro conjI example_run part [THEN conjunct1] part [THEN conjunct2, THEN conjunct1]
        part [THEN conjunct2, THEN conjunct2, THEN conjunct1]
        search [THEN conjunct1] search [THEN conjunct2])
qed

text \<open>
  C4. The result does not depend on the order in which the workers finish. Each worker
  writes its keys to the slot of its own task, and the slots are appended in task order, so
  two runs that differ only in their schedules both return or both do not, both fail or both
  succeed, return the same keys in the same order and have run the same tasks. Only which
  error is reported, when several workers fail, is the schedule's choice.
\<close>

theorem schedule_independent:
  "rel_option sameOutcome
     (generateKeysInParallel (env\<lparr>scheduler := p\<rparr>) ctx params mn cs)
     (generateKeysInParallel (env\<lparr>scheduler := q\<rparr>) ctx params mn cs)"
proof -
  let ?st = "\<lparr>allGeneratedKeys = [], slidingIndex = startIndex params, iteration = 0,
              dispatched = []\<rparr>"
  let ?P = "searchLoop (env\<lparr>scheduler := p\<rparr>) ctx params mn cs ?st"
  let ?Q = "searchLoop (env\<lparr>scheduler := q\<rparr>) ctx params mn cs ?st"
  have pq: "\<exists>r'. ?Q = Some r' \<and> sameOutcome r r'" if "?P = Some r" for r
    using that searchIteration_schedulers sameOutcome_refl by (rule searchLoop_simulation)
  have qp: "\<exists>r'. ?P = Some r' \<and> sameOutcome r r'" if "?Q = Some r" for r
    using that searchIteration_schedulers sameOutcome_refl by (rule searchLoop_simulation)
  have "rel_option sameOutcome ?P ?Q"
  proof (cases ?P)
    case None
    with qp have "?Q = None" by (cases ?Q) auto
    with None show ?thesis by simp
  next
    case (Some r)
    with pq obtain r' where "?Q = Some r'" "sameOutcome r r'" by blast
    with Some show ?thesis by simp
  qed
  then show ?thesis by (simp add: generateKeysInParallel_def)
qed

text \<open>
  C7. A cancellation signal on the context passed to the search would end it with a
  cancellation error and no keys. The code does not consult the context: it is handed to
  \<^verbatim>\<open>errgroup.WithContext\<close>, the derived context is dropped, and no worker receives one. In
  the concrete run, with the context cancelled after the first of its two iterations, the
  search returns its four keys and no error.
\<close>

theorem cancelled_search_returns_keys:
  "cancelledAfterFirst 1
   \<and> generateKeysInParallel exampleEnv cancelledAfterFirst exampleFlags ''seed''
        exampleConstraints =
      Some \<lparr>keys = [exampleKey 0 0, exampleKey 0 2, exampleKey 0 4, exampleKey 0 6],
            err = None, derivations = allocated exampleEnv exampleFlags 2\<rparr>"
  by code_simp

text \<open>
  C7, as the code has it. The context has no effect on the search: under any cancellation
  signal it does what it does under \<^verbatim>\<open>context.Background()\<close>, the only context its caller
  passes. The search ends early through a worker's error only.
\<close>

theorem context_not_consulted:
  "generateKeysInParallel env ctx params mn cs
     = generateKeysInParallel env Background params mn cs"
proof -
  let ?st = "\<lparr>allGeneratedKeys = [], slidingIndex = startIndex params, iteration = 0,
              dispatched = []\<rparr>"
  let ?P = "searchLoop env ctx params mn cs ?st"
  let ?Q = "searchLoop env Background params mn cs ?st"
  have pq: "\<exists>r'. ?Q = Some r' \<and> r = r'" if "?P = Some r" for r
    using that searchIteration_context by (rule searchLoop_simulation) simp
  have qp: "\<exists>r'. ?P = Some r' \<and> r = r'" if "?Q = Some r" for r
    using that searchIteration_context by (rule searchLoop_simulation) simp
  have "?P = ?Q"
  proof (cases ?P)
    case None
    with qp show ?thesis by (cases ?Q) auto
  next
    case (Some r)
    with pq show ?thesis by auto
  qed
  then show ?thesis by (simp add: generateKeysInParallel_def)
qed

text \<open>
  C2. If the search succeeds, the keys handed on are exactly \<open>numKeys\<close> many, and they are
  the first \<open>numKeys\<close> elements of the sorted accumulated matches: all matches are sorted
  first and cut afterwards. The count is right and the cut comes after the sort, but what is
  cut is the output of the comparator of \<^verbatim>\<open>inlineSortKeysByIndexes\<close>, which need not be sorted.
  With one task matching the keys \<open>(0, 1)\<close> and \<open>(1, 0)\<close> and one key requested, the
  accumulated matches are \<open>(0, 1)\<close>, \<open>(1, 0)\<close>, which is their only sorted arrangement, so
  the first of the sorted matches is \<open>(0, 1)\<close>; the key handed to the exporter is \<open>(1, 0)\<close>.
\<close>

theorem generateKeys_cuts_unsorted:
  "generateKeys pairEnv pairFlags =
      Some \<lparr>completion = Returned None, exported = Some [exampleKey 1 0],
            derivationLog = allocated pairEnv pairFlags 1\<rparr>
   \<and> accumulatedMatches pairEnv pairFlags ''seed'' exampleConstraints 1
       = [exampleKey 0 1, exampleKey 1 0]
   \<and> sortedByIndexes [exampleKey 0 1, exampleKey 1 0]
   \<and> \<not> sortedByIndexes [exampleKey 1 0, exampleKey 0 1]
   \<and> take (numKeys pairFlags) [exampleKey 0 1, exampleKey 1 0] = [exampleKey 0 1]
   \<and> [exampleKey 1 0] \<noteq> [exampleKey 0 1]"
  by code_simp

end
